theory Spec2Isabelle
  imports
    Complex_Main
    "HOL-Library.Multiset"
    "HOL-Library.Stream"
    "HOL-Library.List_Lexorder"
    "HOL-Library.Char_ord"
    "HOL-Library.Product_Lexorder"
begin

section \<open>Radar de Noticias de Impacto: the scoring and aggregation pipeline of app.py\<close>

text \<open>
  The theory embeds the functions of \<^verbatim>\<open>app.py\<close> between \<^verbatim>\<open>tz_now\<close> and
  \<^verbatim>\<open>aggregate_trends\<close>. Conventions of the embedding:
  \<^item> a Python \<^verbatim>\<open>str\<close> is a \<open>string\<close>, the list of its UTF-8 bytes; case mapping and
    white space are the ASCII ones;
  \<^item> a Python \<^verbatim>\<open>float\<close> is a \<open>real\<close>: the arithmetic is exact, rounding error,
    overflow and underflow of IEEE doubles are outside the model;
  \<^item> an aware \<^verbatim>\<open>datetime\<close> is an instant, the integer number of microseconds since
    the epoch, and a \<^verbatim>\<open>timedelta\<close> is a difference of instants;
  \<^item> the wall clock is a stream of instants: every call of \<^verbatim>\<open>tz_now()\<close> takes the
    head and leaves the tail;
  \<^item> a \<^verbatim>\<open>DataFrame\<close> is the list of its rows, a row a record of its columns;
  \<^item> the library collaborators (\<^verbatim>\<open>feedparser.parse\<close>, \<^verbatim>\<open>urlparse(..).netloc\<close>,
    the SHA-256 hex digest, the single-column \<^verbatim>\<open>sort_values\<close>) are parameters of the
    functions that call them; an exception is a value of type \<open>error\<close>.
\<close>

subsection \<open>Configuration constants and tables\<close>

definition HALF_LIFE_HOURS :: real where
  "HALF_LIFE_HOURS = 6"


definition SOURCE_WEIGHTS :: "(string \<times> real) list" where
  "SOURCE_WEIGHTS =
    [(''cnbc.com'', 1), (''marketwatch.com'', 9/10), (''wsj.com'', 9/10), (''ft.com'', 9/10),
     (''cnn.com'', 7/10), (''yahoo.com'', 8/10), (''coindesk.com'', 8/10),
     (''cointelegraph.com'', 7/10), (''bloomberglinea.com'', 9/10), (''eleconomista.es'', 8/10),
     (''expansion.com'', 8/10), (''elpais.com'', 7/10), (''prensa.com'', 8/10),
     (''anpanama.com'', 7/10), (''laestrella.com.pa'', 7/10), (''google.com'', 6/10)]"

definition DEFAULT_SOURCE_WEIGHT :: real where
  "DEFAULT_SOURCE_WEIGHT = 6/10"

definition IMPACT_KEYWORDS :: "(string \<times> real) list" where
  "IMPACT_KEYWORDS =
    [(''cpi'', 1), (''inflation'', 1), (''ppi'', 9/10), (''gdp'', 9/10),
     (''payrolls'', 1), (''jobs report'', 1), (''unemployment'', 9/10),
     (''fomc'', 1), (''fed'', 1), (''rate hike'', 1), (''rate cut'', 1),
     (''pce'', 9/10), (''retail sales'', 8/10), (''ism'', 8/10), (''pmi'', 8/10),
     (''ecb'', 1), (''bank of england'', 9/10), (''banxico'', 8/10),
     (''banrep'', 8/10), (''bcb'', 8/10), (''bcrp'', 7/10),
     (''opec'', 1), (''production cut'', 9/10), (''supply'', 7/10),
     (''brent'', 7/10), (''wti'', 7/10),
     (''earnings'', 1), (''guidance'', 1), (''downgrade'', 9/10), (''upgrade'', 9/10),
     (''merger'', 1), (''acquisition'', 1), (''antitrust'', 8/10), (''lawsuit'', 7/10),
     (''dividend'', 7/10), (''buyback'', 7/10),
     (''etf'', 9/10), (''sec'', 8/10), (''hack'', 9/10), (''halving'', 7/10),
     (''binance'', 8/10), (''coinbase'', 8/10), (''bitcoin'', 8/10), (''ethereum'', 7/10)]"

definition KEYWORD_TO_ASSETS :: "(string \<times> string list) list" where
  "KEYWORD_TO_ASSETS =
    [(''fed'', [''USD'', ''US500'', ''XAUUSD'', ''US10Y'']),
     (''cpi'', [''USD'', ''US500'', ''XAUUSD'']),
     (''inflation'', [''USD'', ''US500'', ''XAUUSD'']),
     (''ppi'', [''USD'', ''US500'']),
     (''gdp'', [''USD'', ''US500'']),
     (''payrolls'', [''USD'', ''US500'', ''XAUUSD'']),
     (''unemployment'', [''USD'', ''US500'']),
     (''fomc'', [''USD'', ''US500'', ''XAUUSD'']),
     (''rate hike'', [''USD'', ''US500'', ''XAUUSD'']),
     (''rate cut'', [''USD'', ''US500'', ''XAUUSD'']),
     (''pce'', [''USD'', ''US500'', ''XAUUSD'']),
     (''retail sales'', [''USD'', ''US500'']),
     (''ecb'', [''EURUSD'', ''DE40'', ''EU50'']),
     (''bank of england'', [''GBPUSD'', ''UK100'']),
     (''banxico'', [''USDMXN'']),
     (''banrep'', [''USDCOP'']),
     (''bcb'', [''USDBRL'']),
     (''bcrp'', [''USD/PEN'']),
     (''opec'', [''OIL'', ''USDCAD'', ''USDNOK'']),
     (''production cut'', [''OIL'']),
     (''brent'', [''OIL'']),
     (''wti'', [''OIL'']),
     (''earnings'', [''US500'', ''US100'']),
     (''guidance'', [''US500'', ''US100'']),
     (''downgrade'', [''US500'', ''US100'']),
     (''upgrade'', [''US500'', ''US100'']),
     (''merger'', [''US500'', ''US100'']),
     (''acquisition'', [''US500'', ''US100'']),
     (''bitcoin'', [''BTCUSD'']),
     (''ethereum'', [''ETHUSD'']),
     (''etf'', [''BTCUSD'', ''US500'']),
     (''sec'', [''BTCUSD'', ''US500'']),
     (''hack'', [''BTCUSD'', ''ETHUSD'']),
     (''binance'', [''BTCUSD'', ''ETHUSD'']),
     (''coinbase'', [''BTCUSD'', ''ETHUSD''])]"

text \<open>\<^verbatim>\<open>d.get(k, default)\<close> on a dict written as the list of its items.\<close>

definition dict_get :: "('k \<times> 'v) list \<Rightarrow> 'k \<Rightarrow> 'v \<Rightarrow> 'v" where
  "dict_get d k dflt = (case map_of d k of None \<Rightarrow> dflt | Some v \<Rightarrow> v)"

subsection \<open>Strings\<close>

definition is_upper :: "char \<Rightarrow> bool" where
  "is_upper c = (CHR ''A'' \<le> c \<and> c \<le> CHR ''Z'')"

definition lower_char :: "char \<Rightarrow> char" where
  "lower_char c = (if is_upper c then char_of (of_char c + (32::nat)) else c)"

text \<open>\<^verbatim>\<open>s.lower()\<close>.\<close>

definition lower :: "string \<Rightarrow> string" where
  "lower s = map lower_char s"

fun startswith :: "string \<Rightarrow> string \<Rightarrow> bool" where
  "startswith t [] = True"
| "startswith [] (k # ks) = False"
| "startswith (c # t) (k # ks) = (c = k \<and> startswith t ks)"

text \<open>\<^verbatim>\<open>k in t\<close> for two strings: \<open>k\<close> occurs in \<open>t\<close> as a substring.\<close>

fun str_in :: "string \<Rightarrow> string \<Rightarrow> bool" where
  "str_in k [] = (k = [])"
| "str_in k (c # t) = (startswith (c # t) k \<or> str_in k t)"

text \<open>\<^verbatim>\<open>s.split(sep)\<close> for a separator of one character.\<close>

fun split_on :: "char \<Rightarrow> string \<Rightarrow> string list" where
  "split_on sep [] = [[]]"
| "split_on sep (c # cs) =
     (if c = sep then [] # split_on sep cs
      else (case split_on sep cs of
              [] \<Rightarrow> [[c]]
            | p # ps \<Rightarrow> (c # p) # ps))"

text \<open>\<^verbatim>\<open>sep.join(xs)\<close>.\<close>

fun join :: "string \<Rightarrow> string list \<Rightarrow> string" where
  "join sep [] = []"
| "join sep [x] = x"
| "join sep (x # y # ys) = x @ sep @ join sep (y # ys)"

text \<open>The ASCII characters for which \<^verbatim>\<open>str.isspace\<close> holds: tab to carriage return,
  the four separators 28 to 31, and the space.\<close>

definition is_space :: "char \<Rightarrow> bool" where
  "is_space c = (let n = (of_char c :: nat) in (9 \<le> n \<and> n \<le> 13) \<or> (28 \<le> n \<and> n \<le> 32))"

text \<open>\<^verbatim>\<open>s.strip()\<close>.\<close>

definition strip :: "string \<Rightarrow> string" where
  "strip s = rev (dropWhile is_space (rev (dropWhile is_space s)))"

text \<open>\<^verbatim>\<open>xs[:m]\<close>: a negative bound counts from the end.\<close>

definition slice_to :: "'a list \<Rightarrow> int \<Rightarrow> 'a list" where
  "slice_to xs m = (if 0 \<le> m then take (nat m) xs else take (nat (int (length xs) + m)) xs)"

text \<open>\<^verbatim>\<open>re.findall(r"\$[A-Z]{1,5}", text)\<close>: the scan looks, from left to right, for a
  dollar sign followed by capital letters, takes as many as five of them, and goes on
  behind the match.\<close>

fun findall_ticker :: "string \<Rightarrow> string list" where
  "findall_ticker [] = []"
| "findall_ticker (c # cs) =
     (if c = CHR ''$'' then
        (let m = takeWhile is_upper (take 5 cs) in
         if m = [] then findall_ticker cs
         else (c # m) # findall_ticker (drop (length m) cs))
      else findall_ticker cs)"

subsection \<open>Numbers\<close>

definition round_half_even :: "real \<Rightarrow> int" where
  "round_half_even x =
     (let f = \<lfloor>x\<rfloor>; d = x - of_int f in
      if d < 1/2 then f else if 1/2 < d then f + 1 else if even f then f else f + 1)"

text \<open>\<^verbatim>\<open>round(x, n)\<close>: to the nearest multiple of \<open>10\<^sup>-\<^sup>n\<close>, a tie to the even one.\<close>

definition round_py :: "real \<Rightarrow> nat \<Rightarrow> real" where
  "round_py x n = of_int (round_half_even (x * 10 ^ n)) / 10 ^ n"

subsection \<open>Time\<close>

type_synonym datetime = int

type_synonym clock = "datetime stream"

definition tz_now :: "clock \<Rightarrow> datetime \<times> clock" where
  "tz_now clk = (shd clk, stl clk)"

text \<open>\<^verbatim>\<open>td.total_seconds()\<close> of a difference of instants.\<close>

definition total_seconds :: "int \<Rightarrow> real" where
  "total_seconds d = real_of_int d / 1000000"

text \<open>\<^verbatim>\<open>timedelta(minutes=m)\<close>.\<close>

definition timedelta_minutes :: "int \<Rightarrow> int" where
  "timedelta_minutes m = m * 60000000"

subsection \<open>Feed entries and rows\<close>

text \<open>An entry as \<^verbatim>\<open>feedparser\<close> hands it over: every attribute may be missing or
  empty (\<open>None\<close>); the two time attributes are read as the instants they denote.\<close>

record raw_entry =
  e_title :: "string option"
  e_summary :: "string option"
  e_link :: "string option"
  published_parsed :: "datetime option"
  updated_parsed :: "datetime option"

record row =
  id_col :: string
  time :: datetime
  time_ago_min :: int
  title :: string
  summary :: string
  link :: string
  assets :: string
  impact :: real
  source_weight :: real
  recency :: real
  buzz_score :: real
  source :: string

record trend =
  asset :: string
  count_col :: nat
  avg_buzz :: real

datatype error = ValueError | FeedError

subsection \<open>The scorer\<close>

definition to_dt :: "raw_entry \<Rightarrow> clock \<Rightarrow> datetime \<times> clock" where
  "to_dt entry clk =
     (case published_parsed entry of
        Some t \<Rightarrow> (t, clk)
      | None \<Rightarrow>
          (case updated_parsed entry of
             Some t \<Rightarrow> (t, clk)
           | None \<Rightarrow> tz_now clk))"

text \<open>\<open>netloc_of\<close> is \<^verbatim>\<open>urlparse(..).netloc\<close>, \<open>None\<close> where \<^verbatim>\<open>urlparse\<close> raises.\<close>

definition domain_weight :: "(string \<Rightarrow> string option) \<Rightarrow> string \<Rightarrow> real" where
  "domain_weight netloc_of lnk =
     (case netloc_of lnk of
        None \<Rightarrow> DEFAULT_SOURCE_WEIGHT
      | Some n \<Rightarrow>
          (let netloc = lower n;
               parts = split_on CHR ''.'' netloc;
               dom = (if 2 \<le> length parts then join ''.'' (drop (length parts - 2) parts)
                      else netloc)
           in dict_get SOURCE_WEIGHTS dom DEFAULT_SOURCE_WEIGHT))"

definition recency_score :: "datetime \<Rightarrow> clock \<Rightarrow> real \<times> clock" where
  "recency_score dt clk =
     (let (now, clk') = tz_now clk;
          hours = max (total_seconds (now - dt) / 3600) 0;
          lam = ln 2 / HALF_LIFE_HOURS
      in (exp (- lam * hours), clk'))"

fun keyword_loop ::
  "(string \<times> real) list \<Rightarrow> string \<Rightarrow> real \<times> string set \<Rightarrow> real \<times> string set" where
  "keyword_loop [] text_l acc = acc"
| "keyword_loop ((k, w) # kws) text_l (imp, aset) =
     (if str_in k text_l
      then keyword_loop kws text_l (imp + w, aset \<union> set (dict_get KEYWORD_TO_ASSETS k []))
      else keyword_loop kws text_l (imp, aset))"

fun ticker_loop :: "string list \<Rightarrow> string set \<Rightarrow> string set" where
  "ticker_loop [] aset = aset"
| "ticker_loop (m # ms) aset = ticker_loop ms (insert ''US500'' (insert ''US100'' aset))"

definition detect_assets_and_impact :: "string \<Rightarrow> string list \<times> real" where
  "detect_assets_and_impact text =
     (let text_l = lower text;
          (imp, aset) = keyword_loop IMPACT_KEYWORDS text_l (0, {});
          aset' = ticker_loop (findall_ticker text) aset
      in (sorted_list_of_set aset', imp))"

text \<open>\<open>sha256_hex\<close> is the hex digest of SHA-256 on a byte string; two \<^verbatim>\<open>update\<close> calls
  hash the concatenation of their arguments.\<close>

definition hash_id :: "(string \<Rightarrow> string) \<Rightarrow> string option \<Rightarrow> string option \<Rightarrow> string" where
  "hash_id sha256_hex ttl lnk =
     take 16 (sha256_hex ((case ttl of None \<Rightarrow> [] | Some t \<Rightarrow> t) @
                          (case lnk of None \<Rightarrow> [] | Some l \<Rightarrow> l)))"

text \<open>Line 242 of \<^verbatim>\<open>app.py\<close>.\<close>

definition buzz :: "real \<Rightarrow> real \<Rightarrow> real \<Rightarrow> real" where
  "buzz rec imp source_w = rec * (6/10 + 3/10 * imp + 1/10 * source_w)"

text \<open>\<^verbatim>\<open>getattr(e, name, "") or ""\<close>.\<close>

definition attr_or_empty :: "string option \<Rightarrow> string" where
  "attr_or_empty a = (case a of None \<Rightarrow> [] | Some s \<Rightarrow> s)"

text \<open>The local variables of the loop body of \<^verbatim>\<open>fetch_all\<close> up to line 242.\<close>

record scored =
  v_title :: string
  v_summary :: string
  v_link :: string
  v_dt :: datetime
  v_assets :: "string list"
  v_impact :: real
  v_source_w :: real
  v_rec :: real
  v_buzz :: real

text \<open>Lines 234 to 242: normalise and score one entry. The clock is read by \<^verbatim>\<open>to_dt\<close>
  (when the entry has no time) and by \<^verbatim>\<open>recency_score\<close>.\<close>

definition score_entry ::
  "(string \<Rightarrow> string option) \<Rightarrow> raw_entry \<Rightarrow> clock \<Rightarrow> scored \<times> clock" where
  "score_entry netloc_of e clk =
     (let ttl = attr_or_empty (e_title e);
          smm = attr_or_empty (e_summary e);
          lnk = attr_or_empty (e_link e);
          (dt, clk1) = to_dt e clk;
          (asts, imp) = detect_assets_and_impact (ttl @ '' '' @ smm);
          source_w = domain_weight netloc_of lnk;
          (rec, clk2) = recency_score dt clk1;
          bz = buzz rec imp source_w
      in (\<lparr> v_title = ttl, v_summary = smm, v_link = lnk, v_dt = dt, v_assets = asts,
             v_impact = imp, v_source_w = source_w, v_rec = rec, v_buzz = bz \<rparr>, clk2))"

text \<open>Lines 243 to 256: the row appended for the entry. The key \<^verbatim>\<open>time_ago_min\<close> reads
  the clock once more; the last key calls \<^verbatim>\<open>urlparse\<close> outside any handler of its
  own, after the clock was read.\<close>

definition entry_row ::
  "(string \<Rightarrow> string option) \<Rightarrow> (string \<Rightarrow> string) \<Rightarrow> string \<Rightarrow> raw_entry \<Rightarrow> clock
     \<Rightarrow> (error + row) \<times> clock" where
  "entry_row netloc_of sha256_hex url e clk =
     (let (s, clk2) = score_entry netloc_of e clk;
          ident = hash_id sha256_hex (Some (v_title s)) (Some (v_link s));
          (now, clk3) = tz_now clk2;
          ago = \<lfloor>max (total_seconds (now - v_dt s) / 60) 0\<rfloor>;
          src = (case netloc_of (v_link s) of
                   None \<Rightarrow> Inl ValueError
                 | Some n \<Rightarrow>
                     if n \<noteq> [] then Inr n
                     else (case netloc_of url of None \<Rightarrow> Inl ValueError | Some m \<Rightarrow> Inr m))
      in (case src of
            Inl ex \<Rightarrow> (Inl ex, clk3)
          | Inr sname \<Rightarrow>
              (Inr \<lparr> id_col = ident,
                     time = v_dt s,
                     time_ago_min = ago,
                     title = v_title s,
                     summary = v_summary s,
                     link = v_link s,
                     assets = (if v_assets s \<noteq> [] then join '', '' (v_assets s) else []),
                     impact = round_py (v_impact s) 3,
                     source_weight = round_py (v_source_w s) 3,
                     recency = round_py (v_rec s) 3,
                     buzz_score = round_py (v_buzz s) 5,
                     source = sname \<rparr>, clk3)))"

subsection \<open>The orchestrator\<close>

text \<open>The inner loop: an exception leaves it, and the rows appended so far stay in
  \<open>rows\<close>.\<close>

fun entries_loop ::
  "(string \<Rightarrow> string option) \<Rightarrow> (string \<Rightarrow> string) \<Rightarrow> string \<Rightarrow> raw_entry list
     \<Rightarrow> row list \<Rightarrow> clock \<Rightarrow> row list \<times> clock" where
  "entries_loop netloc_of sha256_hex url [] rows clk = (rows, clk)"
| "entries_loop netloc_of sha256_hex url (e # es) rows clk =
     (case entry_row netloc_of sha256_hex url e clk of
        (Inl ex, clk') \<Rightarrow> (rows, clk')
      | (Inr r, clk') \<Rightarrow> entries_loop netloc_of sha256_hex url es (rows @ [r]) clk')"

text \<open>The outer loop: \<open>parse\<close> is \<^verbatim>\<open>feedparser.parse(url).entries\<close>, \<open>Inl\<close> where it
  raises; the handler goes on with the next feed.\<close>

fun feeds_loop ::
  "(string \<Rightarrow> error + raw_entry list) \<Rightarrow> (string \<Rightarrow> string option) \<Rightarrow> (string \<Rightarrow> string)
     \<Rightarrow> int \<Rightarrow> string list \<Rightarrow> row list \<Rightarrow> clock \<Rightarrow> row list \<times> clock" where
  "feeds_loop parse netloc_of sha256_hex max_items [] rows clk = (rows, clk)"
| "feeds_loop parse netloc_of sha256_hex max_items (url # urls) rows clk =
     (case parse url of
        Inl ex \<Rightarrow> feeds_loop parse netloc_of sha256_hex max_items urls rows clk
      | Inr entries \<Rightarrow>
          (case entries_loop netloc_of sha256_hex url (slice_to entries max_items) rows clk of
             (rows', clk') \<Rightarrow> feeds_loop parse netloc_of sha256_hex max_items urls rows' clk'))"

text \<open>\<^verbatim>\<open>drop_duplicates(subset=["id"])\<close>: the first row of every id stays, in place.\<close>

fun drop_dups_seen :: "string list \<Rightarrow> row list \<Rightarrow> row list" where
  "drop_dups_seen seen [] = []"
| "drop_dups_seen seen (r # rs) =
     (if id_col r \<in> set seen then drop_dups_seen seen rs
      else r # drop_dups_seen (id_col r # seen) rs)"

definition drop_duplicates :: "row list \<Rightarrow> row list" where
  "drop_duplicates rows = drop_dups_seen [] rows"

text \<open>What pandas promises of \<^verbatim>\<open>sort_values("buzz_score", ascending=False)\<close> with the
  default \<^verbatim>\<open>kind="quicksort"\<close>: the rows of the frame, by falling score. The documentation
  names only \<^verbatim>\<open>mergesort\<close> and \<^verbatim>\<open>stable\<close> as stable.\<close>

definition sorts_by_buzz :: "(row list \<Rightarrow> row list) \<Rightarrow> bool" where
  "sorts_by_buzz srt \<longleftrightarrow>
     (\<forall>rows. mset (srt rows) = mset rows \<and>
             sorted_wrt (\<lambda>a b. buzz_score b \<le> buzz_score a) (srt rows))"

text \<open>Lines 262 and 263: the deduplicator and ranker.\<close>

definition dedup_rank :: "(row list \<Rightarrow> row list) \<Rightarrow> row list \<Rightarrow> row list" where
  "dedup_rank srt rows = srt (drop_duplicates rows)"

definition fetch_all ::
  "(string \<Rightarrow> error + raw_entry list) \<Rightarrow> (string \<Rightarrow> string option) \<Rightarrow> (string \<Rightarrow> string)
     \<Rightarrow> (row list \<Rightarrow> row list) \<Rightarrow> string list \<Rightarrow> int \<Rightarrow> clock \<Rightarrow> row list \<times> clock" where
  "fetch_all parse netloc_of sha256_hex srt feeds max_items clk =
     (case feeds_loop parse netloc_of sha256_hex max_items feeds [] clk of
        (rows, clk') \<Rightarrow> if rows = [] then ([], clk') else (dedup_rank srt rows, clk'))"

subsection \<open>The trend aggregator\<close>

definition row_assets :: "row \<Rightarrow> string list" where
  "row_assets r = filter (\<lambda>a. a \<noteq> []) (map strip (split_on CHR '','' (assets r)))"

definition explode_assets :: "row list \<Rightarrow> (string \<times> real) list" where
  "explode_assets dff = concat (map (\<lambda>r. map (\<lambda>a. (a, buzz_score r)) (row_assets r)) dff)"

text \<open>\<^verbatim>\<open>groupby("asset").agg(count, mean).reset_index()\<close>: one row per asset, the assets
  in rising order.\<close>

definition groupby_asset :: "(string \<times> real) list \<Rightarrow> trend list" where
  "groupby_asset tmp =
     map (\<lambda>a. let bs = map snd (filter (\<lambda>p. fst p = a) tmp)
              in \<lparr> asset = a, count_col = length bs, avg_buzz = sum_list bs / real (length bs) \<rparr>)
         (sort (remdups (map fst tmp)))"

text \<open>\<^verbatim>\<open>sort_values(["count","avg_buzz"], ascending=[False, False])\<close>: a lexicographic
  sort on the two columns, written as a stable one; the properties below use the order
  only.\<close>

definition sort_trends :: "trend list \<Rightarrow> trend list" where
  "sort_trends g = sort_key (\<lambda>t. (- int (count_col t), - avg_buzz t)) g"

definition aggregate_trends :: "row list \<Rightarrow> int \<Rightarrow> clock \<Rightarrow> trend list \<times> clock" where
  "aggregate_trends df within_minutes clk =
     (if df = [] then ([], clk)
      else
        (let (now, clk') = tz_now clk;
             cutoff = now - timedelta_minutes within_minutes;
             dff = filter (\<lambda>r. cutoff \<le> time r) df
         in if dff = [] then ([], clk')
            else
              (let assets_expanded = explode_assets dff
               in if assets_expanded = [] then ([], clk')
                  else (sort_trends (groupby_asset assets_expanded), clk'))))"

section \<open>Notions of the specification\<close>


definition is_substring :: "string \<Rightarrow> string \<Rightarrow> bool" where
  "is_substring k t \<longleftrightarrow> (\<exists>p s. t = p @ k @ s)"

text \<open>The keywords of the impact table whose lowercase form occurs in the lowercased
  text.\<close>

definition matched_keywords :: "string \<Rightarrow> string set" where
  "matched_keywords text =
     {k \<in> fst ` set IMPACT_KEYWORDS. is_substring (lower k) (lower text)}"

text \<open>The text holds a dollar sign followed by a capital letter: the pattern of one to
  five capital letters behind a dollar sign has a match.\<close>

definition has_ticker :: "string \<Rightarrow> bool" where
  "has_ticker text \<longleftrightarrow> (\<exists>p c s. text = p @ CHR ''$'' # c # s \<and> is_upper c)"

definition asset_set :: "string \<Rightarrow> string set" where
  "asset_set text =
     (\<Union>k \<in> matched_keywords text. set (dict_get KEYWORD_TO_ASSETS k [])) \<union>
     (if has_ticker text then {''US100'', ''US500''} else {})"

text \<open>The ids of the rows are the hashes of their titles and links, as \<^verbatim>\<open>fetch_all\<close>
  builds them.\<close>

definition ids_hashed :: "(string \<Rightarrow> string) \<Rightarrow> row list \<Rightarrow> bool" where
  "ids_hashed sha256_hex rows \<longleftrightarrow>
     (\<forall>r \<in> set rows. id_col r = hash_id sha256_hex (Some (title r)) (Some (link r)))"









text \<open>An asset name that survives the comma-separated column: not empty, no comma, no
  white space.\<close>

definition clean_name :: "string \<Rightarrow> bool" where
  "clean_name n \<longleftrightarrow> n \<noteq> [] \<and> CHR '','' \<notin> set n \<and> (\<forall>c \<in> set n. \<not> is_space c)"

section \<open>Stand-ins for the collaborators\<close>

text \<open>The theorems below hold for every collaborator; the examples run the code with
  these. \<open>urlparse_netloc\<close> follows \<^verbatim>\<open>urllib.parse.urlsplit\<close> on ASCII URLs without control
  characters: a leading scheme is cut off, the network location is what stands between a
  leading \<^verbatim>\<open>//\<close> and the next of \<^verbatim>\<open>/ ? #\<close>, and a location with one square bracket but
  not the other raises \<^verbatim>\<open>ValueError\<close>. \<open>sample_digest\<close> is an injective digest. Both
  sorters meet \<open>sorts_by_buzz\<close>: the first keeps rows of equal score in their order, the
  second reverses them.\<close>

definition is_alpha :: "char \<Rightarrow> bool" where
  "is_alpha c = ((CHR ''a'' \<le> c \<and> c \<le> CHR ''z'') \<or> (CHR ''A'' \<le> c \<and> c \<le> CHR ''Z''))"

definition scheme_char :: "char \<Rightarrow> bool" where
  "scheme_char c = (is_alpha c \<or> (CHR ''0'' \<le> c \<and> c \<le> CHR ''9'') \<or> c \<in> set ''+-.'')"

definition strip_scheme :: "string \<Rightarrow> string" where
  "strip_scheme url =
     (let pre = takeWhile (\<lambda>c. c \<noteq> CHR '':'') url in
      if length pre < length url \<and> (case pre of [] \<Rightarrow> False | c # _ \<Rightarrow> is_alpha c) \<and>
         list_all scheme_char pre
      then drop (length pre + 1) url else url)"

definition urlparse_netloc :: "string \<Rightarrow> string option" where
  "urlparse_netloc url =
     (let u = strip_scheme url in
      if take 2 u = ''//'' then
        (let netloc = takeWhile (\<lambda>c. c \<notin> set ''/?#'') (drop 2 u) in
         if (CHR ''['' \<in> set netloc) \<noteq> (CHR '']'' \<in> set netloc) then None else Some netloc)
      else Some [])"

definition sample_digest :: "string \<Rightarrow> string" where
  "sample_digest b = b"

definition sort_desc_stable :: "row list \<Rightarrow> row list" where
  "sort_desc_stable rows = rev (sort_key buzz_score (rev rows))"


section \<open>Examples\<close>

definition entry_fed :: raw_entry where
  "entry_fed = \<lparr> e_title = Some ''Fed signals rate cut amid falling CPI'', e_summary = None,
       e_link = Some ''https://www.cnbc.com/x'', published_parsed = Some 0,
       updated_parsed = None \<rparr>"

text \<open>Example rows: the id is the one \<^verbatim>\<open>fetch_all\<close> gives, under \<open>sample_digest\<close>.\<close>

definition sample_row :: "string \<Rightarrow> string \<Rightarrow> datetime \<Rightarrow> real \<Rightarrow> row" where
  "sample_row ttl lnk dt bz =
     \<lparr> id_col = hash_id sample_digest (Some ttl) (Some lnk), time = dt, time_ago_min = 0,
       title = ttl, summary = [], link = lnk, assets = [], impact = 0,
       source_weight = 6/10, recency = 1, buzz_score = bz, source = [] \<rparr>"

definition row_fed_first :: row where
  "row_fed_first = sample_row ''Fed cuts'' ''https://a.example/1'' 0 (1/2)"

definition row_oil :: row where
  "row_oil = sample_row ''Oil up'' ''https://b.example/2'' 0 (3/4)"

definition row_fed_again :: row where
  "row_fed_again = sample_row ''Fed cuts'' ''https://a.example/1'' 60 (9/10)"


definition row_ab_c :: row where
  "row_ab_c = sample_row ''ab'' ''c'' 0 (1/2)"

definition row_a_bc :: row where
  "row_a_bc = sample_row ''a'' ''bc'' 0 (3/4)"








definition entry_cpi :: raw_entry where
  "entry_cpi = \<lparr> e_title = Some ''CPI'', e_summary = None,
       e_link = Some ''https://www.cnbc.com/x'', published_parsed = Some 0,
       updated_parsed = None \<rparr>"

section \<open>Properties\<close>

subsection \<open>Strings and the keyword scan\<close>

lemma startswith_iff: "startswith t k \<longleftrightarrow> (\<exists>s. t = k @ s)"
  by (induction t k rule: startswith.induct) auto

lemma str_in_iff: "str_in k t \<longleftrightarrow> is_substring k t"
proof (induction t)
  case Nil
  show ?case by (auto simp: is_substring_def)
next
  case (Cons c t)
  have "is_substring k (c # t) \<longleftrightarrow> (\<exists>s. c # t = k @ s) \<or> is_substring k t"
  proof
    assume "is_substring k (c # t)"
    then obtain p s where ps: "c # t = p @ k @ s" by (auto simp: is_substring_def)
    show "(\<exists>s. c # t = k @ s) \<or> is_substring k t"
    proof (cases p)
      case Nil
      with ps show ?thesis by auto
    next
      case (Cons a p')
      with ps have "t = p' @ k @ s" by simp
      then show ?thesis by (auto simp: is_substring_def)
    qed
  next
    assume "(\<exists>s. c # t = k @ s) \<or> is_substring k t"
    then show "is_substring k (c # t)"
    proof
      assume "\<exists>s. c # t = k @ s"
      then obtain s where "c # t = [] @ k @ s" by auto
      then show ?thesis unfolding is_substring_def by blast
    next
      assume "is_substring k t"
      then obtain p s where "t = p @ k @ s" by (auto simp: is_substring_def)
      then have "c # t = (c # p) @ k @ s" by simp
      then show ?thesis unfolding is_substring_def by blast
    qed
  qed
  with Cons show ?case by (simp add: startswith_iff)
qed

lemma keys_lower: "\<forall>k \<in> fst ` set IMPACT_KEYWORDS. lower k = k"
  by (simp add: IMPACT_KEYWORDS_def lower_def lower_char_def is_upper_def)

lemma keys_distinct: "distinct (map fst IMPACT_KEYWORDS)"
  by (simp add: IMPACT_KEYWORDS_def)

lemma weights_nonneg: "\<forall>p \<in> set IMPACT_KEYWORDS. 0 \<le> snd p"
  by (simp add: IMPACT_KEYWORDS_def)


lemma keyword_loop_eq:
  "keyword_loop kws t (i, a) =
     (i + sum_list (map snd (filter (\<lambda>p. str_in (fst p) t) kws)),
      a \<union> (\<Union>p \<in> set (filter (\<lambda>p. str_in (fst p) t) kws).
             set (dict_get KEYWORD_TO_ASSETS (fst p) [])))"
  by (induction kws arbitrary: i a) auto

lemma dict_get_Cons:
  "dict_get ((k, w) # d) k' dflt = (if k' = k then w else dict_get d k' dflt)"
  by (simp add: dict_get_def)

lemma sum_list_filter_keys:
  assumes "distinct (map fst kws)"
  shows "sum_list (map snd (filter (\<lambda>p. Q (fst p)) kws)) =
         (\<Sum>k \<in> {k \<in> fst ` set kws. Q k}. dict_get kws k (0::real))"
  using assms
proof (induction kws)
  case Nil
  show ?case by simp
next
  case (Cons p kws)
  obtain k w where p: "p = (k, w)" by (cases p)
  from Cons.prems p have notin: "k \<notin> fst ` set kws" and dist: "distinct (map fst kws)"
    by auto
  let ?S = "{k' \<in> fst ` set kws. Q k'}"
  have fin: "finite ?S" by simp
  have kS: "k \<notin> ?S" using notin by simp
  have same: "(\<Sum>k' \<in> ?S. dict_get (p # kws) k' (0::real)) = (\<Sum>k' \<in> ?S. dict_get kws k' 0)"
    using notin p by (intro sum.cong) (auto simp: dict_get_Cons)
  show ?case
  proof (cases "Q k")
    case True
    then have "{k' \<in> fst ` set (p # kws). Q k'} = insert k ?S" using p by auto
    then have "(\<Sum>k' \<in> {k' \<in> fst ` set (p # kws). Q k'}. dict_get (p # kws) k' (0::real)) =
               dict_get (p # kws) k 0 + (\<Sum>k' \<in> ?S. dict_get (p # kws) k' 0)"
      using fin kS by simp
    also have "\<dots> = w + (\<Sum>k' \<in> ?S. dict_get kws k' 0)"
      using same p by (simp add: dict_get_Cons)
    finally show ?thesis using True p Cons.IH [OF dist] by simp
  next
    case False
    then have "{k' \<in> fst ` set (p # kws). Q k'} = ?S" using p by auto
    then show ?thesis using False p Cons.IH [OF dist] same by simp
  qed
qed

lemma ticker_loop_eq:
  "ticker_loop ms a = (if ms = [] then a else insert ''US500'' (insert ''US100'' a))"
  by (induction ms arbitrary: a) auto

lemma takeWhile_take_nonempty:
  "takeWhile P (take 5 cs) \<noteq> [] \<longleftrightarrow> (\<exists>c s. cs = c # s \<and> P c)"
  by (cases cs) auto

lemma findall_ticker_nonempty: "findall_ticker tx \<noteq> [] \<longleftrightarrow> has_ticker tx"
proof (induction tx rule: findall_ticker.induct)
  case 1
  show ?case by (simp add: has_ticker_def)
next
  case (2 c cs)
  have split: "has_ticker (c # cs) \<longleftrightarrow>
      (c = CHR ''$'' \<and> (\<exists>c' s. cs = c' # s \<and> is_upper c')) \<or> has_ticker cs"
  proof
    assume "has_ticker (c # cs)"
    then obtain p c' s where e: "c # cs = p @ CHR ''$'' # c' # s" and u: "is_upper c'"
      by (auto simp: has_ticker_def)
    show "(c = CHR ''$'' \<and> (\<exists>c' s. cs = c' # s \<and> is_upper c')) \<or> has_ticker cs"
    proof (cases p)
      case Nil
      with e u show ?thesis by auto
    next
      case (Cons a p')
      with e have "cs = p' @ CHR ''$'' # c' # s" by simp
      with u show ?thesis unfolding has_ticker_def by blast
    qed
  next
    assume "(c = CHR ''$'' \<and> (\<exists>c' s. cs = c' # s \<and> is_upper c')) \<or> has_ticker cs"
    then show "has_ticker (c # cs)"
    proof
      assume "c = CHR ''$'' \<and> (\<exists>c' s. cs = c' # s \<and> is_upper c')"
      then obtain c' s where "c # cs = [] @ CHR ''$'' # c' # s" "is_upper c'" by auto
      then show ?thesis unfolding has_ticker_def by blast
    next
      assume "has_ticker cs"
      then obtain p c' s where "cs = p @ CHR ''$'' # c' # s" "is_upper c'"
        by (auto simp: has_ticker_def)
      then have "c # cs = (c # p) @ CHR ''$'' # c' # s" "is_upper c'" by simp_all
      then show ?thesis unfolding has_ticker_def by blast
    qed
  qed
  show ?case
  proof (cases "c = CHR ''$''")
    case False
    with 2 split show ?thesis by simp
  next
    case True
    show ?thesis
    proof (cases "takeWhile is_upper (take 5 cs) = []")
      case e: True
      then have "\<not> (\<exists>c' s. cs = c' # s \<and> is_upper c')"
        using takeWhile_take_nonempty [of is_upper cs] by simp
      with True e 2(1) split show ?thesis by (auto simp: Let_def)
    next
      case ne: False
      then have "\<exists>c' s. cs = c' # s \<and> is_upper c'"
        using takeWhile_take_nonempty [of is_upper cs] by simp
      with True ne split show ?thesis by (simp add: Let_def)
    qed
  qed
qed

lemma findall_ticker_empty: "findall_ticker tx = [] \<longleftrightarrow> \<not> has_ticker tx"
  using findall_ticker_nonempty [of tx] by blast

lemma detect_impact_sum_list:
  "snd (detect_assets_and_impact text) =
     sum_list (map snd (filter (\<lambda>p. str_in (fst p) (lower text)) IMPACT_KEYWORDS))"
  by (simp add: detect_assets_and_impact_def keyword_loop_eq Let_def)

lemma matched_keywords_alt:
  "matched_keywords text = {k \<in> fst ` set IMPACT_KEYWORDS. str_in k (lower text)}"
  using keys_lower by (auto simp: matched_keywords_def str_in_iff)

lemma detect_impact:
  "snd (detect_assets_and_impact text) =
     (\<Sum>k \<in> matched_keywords text. dict_get IMPACT_KEYWORDS k 0)"
  unfolding detect_impact_sum_list matched_keywords_alt
  by (rule sum_list_filter_keys [OF keys_distinct])

lemma finite_matched: "finite (matched_keywords text)"
  by (simp add: matched_keywords_def)

lemma finite_asset_set: "finite (asset_set text)"
  by (simp add: asset_set_def finite_matched)

lemma detect_assets:
  "fst (detect_assets_and_impact text) = sorted_list_of_set (asset_set text)"
proof -
  have "(\<Union>p \<in> set (filter (\<lambda>p. str_in (fst p) (lower text)) IMPACT_KEYWORDS).
           set (dict_get KEYWORD_TO_ASSETS (fst p) [])) =
        (\<Union>k \<in> matched_keywords text. set (dict_get KEYWORD_TO_ASSETS k []))"
    unfolding matched_keywords_alt by auto
  then show ?thesis
    by (auto simp: detect_assets_and_impact_def keyword_loop_eq Let_def ticker_loop_eq
        asset_set_def findall_ticker_empty intro!: arg_cong [where f = sorted_list_of_set])
qed

text \<open>
  Claim C6. For every text, the impact is the sum of the weights of the keywords of the
  impact table whose lowercase form occurs in the lowercased text, every keyword once;
  the assets returned are, sorted and without repetition, the union of the asset lists
  mapped to those keywords, together with \<open>US100\<close> and \<open>US500\<close> when the pattern of a
  dollar sign and one to five capital letters has a match in the text as it is written;
  the pattern has a match exactly when a dollar sign stands before a capital letter.
\<close>

theorem detect_assets_and_impact_spec:
  "snd (detect_assets_and_impact text) =
     (\<Sum>k \<in> matched_keywords text. dict_get IMPACT_KEYWORDS k 0) \<and>
   fst (detect_assets_and_impact text) = sorted_list_of_set (asset_set text) \<and>
   set (fst (detect_assets_and_impact text)) = asset_set text \<and>
   (findall_ticker text \<noteq> [] \<longleftrightarrow> has_ticker text)"
  by (simp add: detect_impact detect_assets finite_asset_set findall_ticker_nonempty)

theorem detect_assets_and_impact_spec_witness:
  "(\<Sum>k \<in> matched_keywords ''Fed signals rate cut amid falling CPI $TSLA''.
      dict_get IMPACT_KEYWORDS k 0) = 3 \<and>
   asset_set ''Fed signals rate cut amid falling CPI $TSLA'' =
     {''US100'', ''US10Y'', ''US500'', ''USD'', ''XAUUSD''} \<and>
   has_ticker ''Fed signals rate cut amid falling CPI $TSLA''"
proof -
  have run: "detect_assets_and_impact ''Fed signals rate cut amid falling CPI $TSLA'' =
      ([''US100'', ''US10Y'', ''US500'', ''USD'', ''XAUUSD''], 3)"
    by code_simp
  have tick: "findall_ticker ''Fed signals rate cut amid falling CPI $TSLA'' = [''$TSLA'']"
    by code_simp
  show ?thesis
    using detect_assets_and_impact_spec [of "''Fed signals rate cut amid falling CPI $TSLA''"]
    unfolding run tick by auto
qed

subsection \<open>Recency and the buzz formula\<close>

text \<open>
  Claim C7. For non-negative recency, impact and source weight, raising one of the three
  and keeping the other two never lowers \<open>recency * (0.6 + 0.3 * impact + 0.1 * source_weight)\<close>.
\<close>

theorem buzz_monotone:
  assumes "0 \<le> rec" and "0 \<le> imp" and "0 \<le> sw"
  shows "(imp \<le> imp' \<longrightarrow> buzz rec imp sw \<le> buzz rec imp' sw) \<and>
         (sw \<le> sw' \<longrightarrow> buzz rec imp sw \<le> buzz rec imp sw') \<and>
         (rec \<le> rec' \<longrightarrow> buzz rec imp sw \<le> buzz rec' imp sw)"
proof (intro conjI impI)
  assume "imp \<le> imp'"
  then have "6/10 + 3/10 * imp + 1/10 * sw \<le> 6/10 + 3/10 * imp' + 1/10 * sw" by simp
  with assms(1) show "buzz rec imp sw \<le> buzz rec imp' sw"
    by (simp add: buzz_def mult_left_mono)
next
  assume "sw \<le> sw'"
  then have "6/10 + 3/10 * imp + 1/10 * sw \<le> 6/10 + 3/10 * imp + 1/10 * sw'" by simp
  with assms(1) show "buzz rec imp sw \<le> buzz rec imp sw'"
    by (simp add: buzz_def mult_left_mono)
next
  assume "rec \<le> rec'"
  moreover from assms(2,3) have "0 \<le> 6/10 + 3/10 * imp + 1/10 * sw" by simp
  ultimately show "buzz rec imp sw \<le> buzz rec' imp sw"
    by (simp add: buzz_def mult_right_mono)
qed

theorem buzz_monotone_witness:
  "buzz (1/2) 1 (6/10) \<le> buzz (1/2) 2 (6/10) \<and> buzz (1/2) 1 (6/10) \<le> buzz (1/2) 1 1 \<and>
   buzz (1/2) 1 (6/10) \<le> buzz 1 1 (6/10)"
  using buzz_monotone [of "1/2" 1 "6/10" 2 1 1] by simp

lemma recency_score_fst:
  "fst (recency_score dt clk) = exp (- (ln 2 / 6) * max (total_seconds (shd clk - dt) / 3600) 0)"
  by (simp add: recency_score_def tz_now_def HALF_LIFE_HOURS_def Let_def)

lemma recency_score_snd: "snd (recency_score dt clk) = stl clk"
  by (simp add: recency_score_def tz_now_def Let_def)



subsection \<open>The scorer\<close>

lemma sources_range: "\<forall>p \<in> set SOURCE_WEIGHTS. 6/10 \<le> snd p \<and> snd p \<le> 1"
  by (simp add: SOURCE_WEIGHTS_def)

lemma dict_get_cases:
  "dict_get d k dflt = dflt \<or> (k, dict_get d k dflt) \<in> set d"
  by (auto simp: dict_get_def dest: map_of_SomeD split: option.splits)

lemma domain_weight_range:
  "6/10 \<le> domain_weight netloc_of lnk \<and> domain_weight netloc_of lnk \<le> 1"
proof -
  have "6/10 \<le> dict_get SOURCE_WEIGHTS dom DEFAULT_SOURCE_WEIGHT \<and>
        dict_get SOURCE_WEIGHTS dom DEFAULT_SOURCE_WEIGHT \<le> 1" for dom
    using dict_get_cases [of SOURCE_WEIGHTS dom DEFAULT_SOURCE_WEIGHT] sources_range
    by (auto simp: DEFAULT_SOURCE_WEIGHT_def)
  then show ?thesis
    by (simp add: domain_weight_def DEFAULT_SOURCE_WEIGHT_def Let_def split: option.splits)
qed

lemma detect_impact_nonneg: "0 \<le> snd (detect_assets_and_impact tx)"
  unfolding detect_impact_sum_list
  using weights_nonneg by (intro sum_list_nonneg) auto

lemma recency_score_range:
  "0 < fst (recency_score dt clk) \<and> fst (recency_score dt clk) \<le> 1"
  by (simp add: recency_score_fst)

lemma to_dt_snd:
  "snd (to_dt e clk) =
     (if published_parsed e = None \<and> updated_parsed e = None then stl clk else clk)"
  by (simp add: to_dt_def tz_now_def split: option.splits)

lemma to_dt_fst:
  "fst (to_dt e clk) =
     (case published_parsed e of Some t \<Rightarrow> t
      | None \<Rightarrow> (case updated_parsed e of Some t \<Rightarrow> t | None \<Rightarrow> shd clk))"
  by (simp add: to_dt_def tz_now_def split: option.splits)

lemma score_entry_fst:
  "fst (score_entry netloc_of e clk) =
     \<lparr> v_title = attr_or_empty (e_title e), v_summary = attr_or_empty (e_summary e),
       v_link = attr_or_empty (e_link e), v_dt = fst (to_dt e clk),
       v_assets = fst (detect_assets_and_impact
          (attr_or_empty (e_title e) @ '' '' @ attr_or_empty (e_summary e))),
       v_impact = snd (detect_assets_and_impact
          (attr_or_empty (e_title e) @ '' '' @ attr_or_empty (e_summary e))),
       v_source_w = domain_weight netloc_of (attr_or_empty (e_link e)),
       v_rec = fst (recency_score (fst (to_dt e clk)) (snd (to_dt e clk))),
       v_buzz = buzz (fst (recency_score (fst (to_dt e clk)) (snd (to_dt e clk))))
          (snd (detect_assets_and_impact
             (attr_or_empty (e_title e) @ '' '' @ attr_or_empty (e_summary e))))
          (domain_weight netloc_of (attr_or_empty (e_link e))) \<rparr>"
  by (simp add: score_entry_def Let_def split: prod.splits)

lemma score_entry_snd:
  "snd (score_entry netloc_of e clk) = stl (snd (to_dt e clk))"
  by (simp add: score_entry_def Let_def recency_score_def tz_now_def split: prod.splits)

lemma buzz_pos:
  assumes "0 \<le> imp" "0 \<le> sw" "0 < rec"
  shows "0 < buzz rec imp sw"
proof -
  from assms(1,2) have "0 < 6/10 + 3/10 * imp + 1/10 * sw" by simp
  with assms(3) show ?thesis unfolding buzz_def by (rule mult_pos_pos)
qed


lemma fed_detect:
  "detect_assets_and_impact ''Fed signals rate cut amid falling CPI '' =
     ([''US10Y'', ''US500'', ''USD'', ''XAUUSD''], 3)"
  by code_simp

lemma cnbc_weight: "domain_weight urlparse_netloc ''https://www.cnbc.com/x'' = 1"
  by code_simp

lemma recency_six_hours: "fst (recency_score 0 (sconst 21600000000)) = 1/2"
  by (simp add: recency_score_fst total_seconds_def exp_minus)

lemma recency_now: "fst (recency_score 0 (sconst 0)) = 1"
  by (simp add: recency_score_fst total_seconds_def)

lemma score_fed_now:
  "fst (score_entry urlparse_netloc entry_fed (sconst 0)) =
     \<lparr> v_title = ''Fed signals rate cut amid falling CPI'', v_summary = [],
       v_link = ''https://www.cnbc.com/x'', v_dt = 0,
       v_assets = [''US10Y'', ''US500'', ''USD'', ''XAUUSD''],
       v_impact = 3, v_source_w = 1, v_rec = 1, v_buzz = 8/5 \<rparr>"
  by (simp add: score_entry_fst entry_fed_def attr_or_empty_def to_dt_fst to_dt_snd
      fed_detect cnbc_weight recency_now buzz_def)

lemma score_fed_later:
  "fst (score_entry urlparse_netloc entry_fed (sconst 21600000000)) =
     \<lparr> v_title = ''Fed signals rate cut amid falling CPI'', v_summary = [],
       v_link = ''https://www.cnbc.com/x'', v_dt = 0,
       v_assets = [''US10Y'', ''US500'', ''USD'', ''XAUUSD''],
       v_impact = 3, v_source_w = 1, v_rec = 1/2, v_buzz = 4/5 \<rparr>"
  by (simp add: score_entry_fst entry_fed_def attr_or_empty_def to_dt_fst to_dt_snd
      fed_detect cnbc_weight recency_six_hours buzz_def)


text \<open>
  Claim C2 as stated fails: the same entry, scored under two clocks, has recency 1 under
  the one and one half under the other.
\<close>

theorem scorer_reads_clock_counterexample:
  "fst (score_entry urlparse_netloc entry_fed (sconst 0)) \<noteq>
   fst (score_entry urlparse_netloc entry_fed (sconst 21600000000))"
  by (simp add: score_fed_now score_fed_later)

lemma stake_2: "stake 2 s = [shd s, shd (stl s)]"
  by (simp add: numeral_2_eq_2)

lemma stake_3: "stake 3 s = [shd s, shd (stl s), shd (stl (stl s))]"
  by (simp add: numeral_3_eq_3)

lemma to_dt_cong:
  assumes "shd clk = shd clk'"
  shows "fst (to_dt e clk) = fst (to_dt e clk')"
  using assms by (simp add: to_dt_fst split: option.splits)

lemma recency_cong:
  assumes "shd c = shd c'"
  shows "fst (recency_score dt c) = fst (recency_score dt c')"
  using assms by (simp add: recency_score_fst)

lemma score_entry_cong:
  assumes "stake 2 clk = stake 2 clk'"
  shows "fst (score_entry netloc_of e clk) = fst (score_entry netloc_of e clk')"
proof -
  from assms have h: "shd clk = shd clk'" and h2: "shd (stl clk) = shd (stl clk')"
    by (simp_all add: stake_2)
  have d: "fst (to_dt e clk) = fst (to_dt e clk')" using h by (rule to_dt_cong)
  have s: "shd (snd (to_dt e clk)) = shd (snd (to_dt e clk'))"
    using h h2 by (simp add: to_dt_snd)
  have r: "fst (recency_score (fst (to_dt e clk')) (snd (to_dt e clk))) =
           fst (recency_score (fst (to_dt e clk')) (snd (to_dt e clk')))"
    using s by (rule recency_cong)
  show ?thesis by (simp add: score_entry_fst d r)
qed

lemma score_entry_timed_cong:
  assumes "published_parsed e \<noteq> None \<or> updated_parsed e \<noteq> None" and "shd clk = shd clk'"
  shows "fst (score_entry netloc_of e clk) = fst (score_entry netloc_of e clk')"
proof -
  have d: "fst (to_dt e clk) = fst (to_dt e clk')" using assms(2) by (rule to_dt_cong)
  have s: "shd (snd (to_dt e clk)) = shd (snd (to_dt e clk'))"
    using assms by (auto simp: to_dt_snd)
  have r: "fst (recency_score (fst (to_dt e clk')) (snd (to_dt e clk))) =
           fst (recency_score (fst (to_dt e clk')) (snd (to_dt e clk')))"
    using s by (rule recency_cong)
  show ?thesis by (simp add: score_entry_fst d r)
qed

lemma entry_row_fst:
  "fst (entry_row netloc_of sha256_hex url e clk) =
     (let s = fst (score_entry netloc_of e clk);
          now = shd (snd (score_entry netloc_of e clk))
      in case (case netloc_of (v_link s) of
                 None \<Rightarrow> Inl ValueError
               | Some n \<Rightarrow>
                   if n \<noteq> [] then Inr n
                   else (case netloc_of url of None \<Rightarrow> Inl ValueError | Some m \<Rightarrow> Inr m)) of
           Inl ex \<Rightarrow> Inl ex
         | Inr sname \<Rightarrow>
             Inr \<lparr> id_col = hash_id sha256_hex (Some (v_title s)) (Some (v_link s)),
                   time = v_dt s,
                   time_ago_min = \<lfloor>max (total_seconds (now - v_dt s) / 60) 0\<rfloor>,
                   title = v_title s,
                   summary = v_summary s,
                   link = v_link s,
                   assets = (if v_assets s \<noteq> [] then join '', '' (v_assets s) else []),
                   impact = round_py (v_impact s) 3,
                   source_weight = round_py (v_source_w s) 3,
                   recency = round_py (v_rec s) 3,
                   buzz_score = round_py (v_buzz s) 5,
                   source = sname \<rparr>)"
  by (simp add: entry_row_def Let_def tz_now_def split: prod.splits sum.splits)


lemma entry_row_cong:
  assumes "stake 3 clk = stake 3 clk'"
  shows "fst (entry_row netloc_of sha256_hex url e clk) =
         fst (entry_row netloc_of sha256_hex url e clk')"
proof -
  from assms have h: "shd clk = shd clk'" and h2: "shd (stl clk) = shd (stl clk')"
    and h3: "shd (stl (stl clk)) = shd (stl (stl clk'))"
    by (simp_all add: stake_3)
  have s: "fst (score_entry netloc_of e clk) = fst (score_entry netloc_of e clk')"
    using h h2 by (intro score_entry_cong) (simp add: stake_2)
  have n: "shd (snd (score_entry netloc_of e clk)) = shd (snd (score_entry netloc_of e clk'))"
    using h2 h3 by (simp add: score_entry_snd to_dt_snd)
  show ?thesis by (simp add: entry_row_fst s n)
qed

text \<open>
  Claim C2, as amended. \<^verbatim>\<open>now\<close> is not a parameter of the scorer: \<^verbatim>\<open>recency_score\<close>, and
  \<^verbatim>\<open>to_dt\<close> for an entry without a time, call \<^verbatim>\<open>tz_now()\<close> themselves. The scored values
  of an entry are a function of the entry and of the first two clock readings (of the
  first alone when the entry carries a time), and the row of an entry is a function of the
  entry and the first three: two runs on the same entry that read the same instants
  give the same output.
\<close>

theorem scorer_function_of_clock_readings:
  "(stake 2 clk = stake 2 clk' \<longrightarrow>
      fst (score_entry netloc_of e clk) = fst (score_entry netloc_of e clk')) \<and>
   ((published_parsed e \<noteq> None \<or> updated_parsed e \<noteq> None) \<and> shd clk = shd clk' \<longrightarrow>
      fst (score_entry netloc_of e clk) = fst (score_entry netloc_of e clk')) \<and>
   (stake 3 clk = stake 3 clk' \<longrightarrow>
      fst (entry_row netloc_of sha256_hex url e clk) =
      fst (entry_row netloc_of sha256_hex url e clk'))"
  using score_entry_cong score_entry_timed_cong entry_row_cong by blast

theorem scorer_function_of_clock_readings_witness:
  "fst (score_entry urlparse_netloc entry_fed (0 ## 0 ## 0 ## sconst 7)) =
   fst (score_entry urlparse_netloc entry_fed (sconst 0)) \<and>
   v_buzz (fst (score_entry urlparse_netloc entry_fed (0 ## 0 ## 0 ## sconst 7))) = 8/5 \<and>
   fst (entry_row urlparse_netloc sample_digest [] entry_fed (0 ## 0 ## 0 ## sconst 7)) =
   fst (entry_row urlparse_netloc sample_digest [] entry_fed (sconst 0))"
proof -
  have two: "stake 2 (0 ## 0 ## 0 ## sconst (7::int)) = stake 2 (sconst 0)"
    unfolding stake_2 by simp
  have three: "stake 3 (0 ## 0 ## 0 ## sconst (7::int)) = stake 3 (sconst 0)"
    unfolding stake_3 by simp
  have timed: "(published_parsed entry_fed \<noteq> None \<or> updated_parsed entry_fed \<noteq> None) \<and>
      shd (0 ## 0 ## 0 ## sconst (7::int)) = shd (sconst 0)"
    by (simp add: entry_fed_def)
  note th = scorer_function_of_clock_readings [where clk = "0 ## 0 ## 0 ## sconst 7"
      and clk' = "sconst 0" and netloc_of = urlparse_netloc and e = entry_fed
      and sha256_hex = sample_digest and url = "[]"]
  from th [THEN conjunct1, THEN mp, OF two]
  have a: "fst (score_entry urlparse_netloc entry_fed (0 ## 0 ## 0 ## sconst 7)) =
      fst (score_entry urlparse_netloc entry_fed (sconst 0))" .
  from th [THEN conjunct2, THEN conjunct1, THEN mp, OF timed]
  have "fst (score_entry urlparse_netloc entry_fed (0 ## 0 ## 0 ## sconst 7)) =
      fst (score_entry urlparse_netloc entry_fed (sconst 0))" .
  then have b: "v_buzz (fst (score_entry urlparse_netloc entry_fed (0 ## 0 ## 0 ## sconst 7))) = 8/5"
    by (simp add: score_fed_now)
  from th [THEN conjunct2, THEN conjunct2, THEN mp, OF three]
  have c: "fst (entry_row urlparse_netloc sample_digest [] entry_fed (0 ## 0 ## 0 ## sconst 7)) =
      fst (entry_row urlparse_netloc sample_digest [] entry_fed (sconst 0))" .
  from a b c show ?thesis by (intro conjI)
qed

subsection \<open>The deduplicator and ranker\<close>

lemma sorted_desc_rev_sort_key:
  "sorted_wrt (\<lambda>a b. buzz_score b \<le> buzz_score a) (rev (sort_key buzz_score rows))"
  using sorted_sort_key [of buzz_score rows] by (simp add: sorted_wrt_rev sorted_map)

lemma sorts_by_buzz_stable: "sorts_by_buzz sort_desc_stable"
  by (simp add: sorts_by_buzz_def sort_desc_stable_def sorted_desc_rev_sort_key)


lemma filter_drop_dups_seen:
  "filter (\<lambda>r. id_col r = i) (drop_dups_seen seen rows) =
     (if i \<in> set seen then [] else take 1 (filter (\<lambda>r. id_col r = i) rows))"
proof (induction rows arbitrary: seen)
  case Nil
  show ?case by simp
next
  case (Cons r rows)
  show ?case
  proof (cases "id_col r \<in> set seen")
    case True
    then show ?thesis using Cons.IH [of seen] by auto
  next
    case False
    then show ?thesis using Cons.IH [of "id_col r # seen"] by auto
  qed
qed


lemma drop_dups_seen_not_seen:
  "r \<in> set (drop_dups_seen seen rows) \<Longrightarrow> id_col r \<notin> set seen"
proof (induction rows arbitrary: seen)
  case Nil
  then show ?case by simp
next
  case (Cons a rows)
  show ?case
  proof (cases "id_col a \<in> set seen")
    case True
    with Cons.prems have "r \<in> set (drop_dups_seen seen rows)" by simp
    then show ?thesis by (rule Cons.IH)
  next
    case False
    with Cons.prems have "r = a \<or> r \<in> set (drop_dups_seen (id_col a # seen) rows)" by simp
    then show ?thesis
    proof
      assume "r = a"
      with False show ?thesis by simp
    next
      assume "r \<in> set (drop_dups_seen (id_col a # seen) rows)"
      then have "id_col r \<notin> set (id_col a # seen)" by (rule Cons.IH)
      then show ?thesis by simp
    qed
  qed
qed

lemma distinct_drop_dups_seen: "distinct (map id_col (drop_dups_seen seen rows))"
proof (induction rows arbitrary: seen)
  case Nil
  show ?case by simp
next
  case (Cons r rows)
  have "id_col r \<notin> id_col ` set (drop_dups_seen (id_col r # seen) rows)"
    using drop_dups_seen_not_seen [of _ "id_col r # seen" rows] by force
  with Cons show ?case by simp
qed

lemma filter_drop_duplicates:
  "filter (\<lambda>r. id_col r = i) (drop_duplicates rows) = take 1 (filter (\<lambda>r. id_col r = i) rows)"
  by (simp add: drop_duplicates_def filter_drop_dups_seen)

lemma distinct_drop_duplicates: "distinct (map id_col (drop_duplicates rows))"
  by (simp add: drop_duplicates_def distinct_drop_dups_seen)

lemma set_drop_duplicates: "set (drop_duplicates rows) \<subseteq> set rows"
proof -
  have "set (drop_dups_seen seen rows) \<subseteq> set rows" for seen
    by (induction rows arbitrary: seen) auto
  then show ?thesis by (simp add: drop_duplicates_def)
qed

lemma mset_dedup_rank:
  assumes "sorts_by_buzz srt"
  shows "mset (dedup_rank srt rows) = mset (drop_duplicates rows)"
  using assms by (simp add: sorts_by_buzz_def dedup_rank_def)


lemma mset_short_eq:
  assumes "mset xs = mset ys" and "length ys \<le> 1"
  shows "xs = ys"
proof (cases ys)
  case Nil
  with assms show ?thesis by simp
next
  case (Cons y ys')
  with assms(2) have "ys = [y]" by simp
  with assms(1) show ?thesis by simp
qed

lemma filter_dedup_rank:
  assumes "sorts_by_buzz srt"
  shows "filter (\<lambda>r. id_col r = i) (dedup_rank srt rows) =
         take 1 (filter (\<lambda>r. id_col r = i) rows)"
proof -
  have "mset (filter (\<lambda>r. id_col r = i) (dedup_rank srt rows)) =
        mset (filter (\<lambda>r. id_col r = i) (drop_duplicates rows))"
    using mset_dedup_rank [OF assms, of rows] by (simp only: mset_filter)
  then have "filter (\<lambda>r. id_col r = i) (dedup_rank srt rows) =
        filter (\<lambda>r. id_col r = i) (drop_duplicates rows)"
    by (rule mset_short_eq) (simp add: filter_drop_duplicates)
  then show ?thesis by (simp add: filter_drop_duplicates)
qed

lemma distinct_dedup_rank:
  assumes "sorts_by_buzz srt"
  shows "distinct (map id_col (dedup_rank srt rows))"
proof -
  have "mset (map id_col (dedup_rank srt rows)) = mset (map id_col (drop_duplicates rows))"
    using mset_dedup_rank [OF assms, of rows] by simp
  from mset_eq_imp_distinct_iff [OF this] show ?thesis
    using distinct_drop_duplicates [of rows] by simp
qed

lemma filter_member_nonempty:
  assumes "r \<in> set rows"
  shows "length (take 1 (filter (\<lambda>x. id_col x = id_col r) rows)) = 1"
proof -
  from assms have "r \<in> set (filter (\<lambda>x. id_col x = id_col r) rows)" by simp
  then have "filter (\<lambda>x. id_col x = id_col r) rows \<noteq> []"
    by (cases "filter (\<lambda>x. id_col x = id_col r) rows") simp_all
  then show ?thesis by (cases "filter (\<lambda>x. id_col x = id_col r) rows") simp_all
qed

text \<open>
  Claim C3. For every list of rows whose ids are the hashes of title and link (as those
  of the rows \<^verbatim>\<open>fetch_all\<close> collects are, lemma \<open>feeds_loop_hashed\<close>), two rows
  with the same title and link have the same id; the deduplicated and ranked output holds
  exactly one row with that id, the first row of that id in input order; and no two rows
  of the output share an id. This holds for every sort that returns the rows of the frame
  by falling score.
\<close>

theorem dedup_rank_first_occurrence:
  assumes "sorts_by_buzz srt" and "ids_hashed sha256_hex rows"
    and "r1 \<in> set rows" and "r2 \<in> set rows"
    and "title r1 = title r2" and "link r1 = link r2"
  shows "id_col r1 = id_col r2 \<and>
         filter (\<lambda>x. id_col x = id_col r1) (dedup_rank srt rows) =
           take 1 (filter (\<lambda>x. id_col x = id_col r1) rows) \<and>
         length (filter (\<lambda>x. id_col x = id_col r1) (dedup_rank srt rows)) = 1 \<and>
         distinct (map id_col (dedup_rank srt rows))"
proof -
  from assms(2-6) have "id_col r1 = id_col r2" by (simp add: ids_hashed_def)
  moreover note filter_dedup_rank [OF assms(1), of "id_col r1" rows]
  moreover have "length (filter (\<lambda>x. id_col x = id_col r1) (dedup_rank srt rows)) = 1"
    using filter_member_nonempty [OF assms(3)]
    by (simp only: filter_dedup_rank [OF assms(1)])
  moreover note distinct_dedup_rank [OF assms(1), of rows]
  ultimately show ?thesis by blast
qed

theorem dedup_rank_first_occurrence_witness:
  "id_col row_fed_first = id_col row_fed_again \<and>
   filter (\<lambda>x. id_col x = id_col row_fed_first)
     (dedup_rank sort_desc_stable [row_fed_first, row_oil, row_fed_again]) = [row_fed_first] \<and>
   distinct (map id_col (dedup_rank sort_desc_stable [row_fed_first, row_oil, row_fed_again]))"
proof -
  have h: "ids_hashed sample_digest [row_fed_first, row_oil, row_fed_again]"
    by (simp add: ids_hashed_def row_fed_first_def row_oil_def row_fed_again_def sample_row_def)
  have t: "title row_fed_first = title row_fed_again" "link row_fed_first = link row_fed_again"
    by (simp_all add: row_fed_first_def row_fed_again_def sample_row_def)
  have m: "row_fed_first \<in> set [row_fed_first, row_oil, row_fed_again]"
    "row_fed_again \<in> set [row_fed_first, row_oil, row_fed_again]"
    by simp_all
  have f: "take 1 (filter (\<lambda>x. id_col x = id_col row_fed_first)
      [row_fed_first, row_oil, row_fed_again]) = [row_fed_first]"
    by simp
  note th = dedup_rank_first_occurrence [OF sorts_by_buzz_stable h m t]
  from th have e: "id_col row_fed_first = id_col row_fed_again" by (rule conjunct1)
  from th have "filter (\<lambda>x. id_col x = id_col row_fed_first)
      (dedup_rank sort_desc_stable [row_fed_first, row_oil, row_fed_again]) =
      take 1 (filter (\<lambda>x. id_col x = id_col row_fed_first)
        [row_fed_first, row_oil, row_fed_again])"
    by (rule conjunct1 [OF conjunct2])
  then have r: "filter (\<lambda>x. id_col x = id_col row_fed_first)
      (dedup_rank sort_desc_stable [row_fed_first, row_oil, row_fed_again]) = [row_fed_first]"
    by (simp only: f)
  from th have d: "distinct (map id_col
      (dedup_rank sort_desc_stable [row_fed_first, row_oil, row_fed_again]))"
    by (rule conjunct2 [OF conjunct2 [OF conjunct2]])
  from e r d show ?thesis by (intro conjI)
qed

lemma hash_id_concat:
  assumes "t1 @ l1 = t2 @ l2"
  shows "hash_id sha256_hex (Some t1) (Some l1) = hash_id sha256_hex (Some t2) (Some l2)"
  using assms by (simp add: hash_id_def)

lemma dedup_same_concatenation:
  assumes s: "sorts_by_buzz srt" and h: "ids_hashed sha256_hex rows"
    and m1: "r1 \<in> set rows" and m2: "r2 \<in> set rows"
    and e: "title r1 @ link r1 = title r2 @ link r2"
  shows "id_col r1 = id_col r2"
    and "filter (\<lambda>x. id_col x = id_col r1) (dedup_rank srt rows) =
           take 1 (filter (\<lambda>x. id_col x = id_col r1) rows)"
    and "length (filter (\<lambda>x. id_col x = id_col r1) (dedup_rank srt rows)) = 1"
proof -
  from h m1 m2 have "id_col r1 = hash_id sha256_hex (Some (title r1)) (Some (link r1))"
    and "id_col r2 = hash_id sha256_hex (Some (title r2)) (Some (link r2))"
    by (simp_all add: ids_hashed_def)
  with hash_id_concat [OF e] show "id_col r1 = id_col r2" by simp
  show "filter (\<lambda>x. id_col x = id_col r1) (dedup_rank srt rows) =
           take 1 (filter (\<lambda>x. id_col x = id_col r1) rows)"
    by (rule filter_dedup_rank [OF s])
  show "length (filter (\<lambda>x. id_col x = id_col r1) (dedup_rank srt rows)) = 1"
    using filter_member_nonempty [OF m1] by (simp only: filter_dedup_rank [OF s])
qed

text \<open>
  Claim C10. The id is the hash of the title followed at once by the link: pairs with the
  same concatenation have the same id, a missing title or link counts as the empty
  string, and of two rows whose title and link concatenate to the same string only the
  first one of that id is in the deduplicated output, whether or not their titles and
  links differ.
\<close>

theorem hash_id_concatenation:
  "(t1 @ l1 = t2 @ l2 \<longrightarrow>
      hash_id sha256_hex (Some t1) (Some l1) = hash_id sha256_hex (Some t2) (Some l2)) \<and>
   hash_id sha256_hex None l = hash_id sha256_hex (Some []) l \<and>
   hash_id sha256_hex t None = hash_id sha256_hex t (Some []) \<and>
   (sorts_by_buzz srt \<and> ids_hashed sha256_hex rows \<and> r1 \<in> set rows \<and> r2 \<in> set rows \<and>
    title r1 @ link r1 = title r2 @ link r2 \<longrightarrow>
      id_col r1 = id_col r2 \<and>
      filter (\<lambda>x. id_col x = id_col r1) (dedup_rank srt rows) =
        take 1 (filter (\<lambda>x. id_col x = id_col r1) rows) \<and>
      length (filter (\<lambda>x. id_col x = id_col r1) (dedup_rank srt rows)) = 1)"
proof (intro conjI impI)
  assume "t1 @ l1 = t2 @ l2"
  then show "hash_id sha256_hex (Some t1) (Some l1) = hash_id sha256_hex (Some t2) (Some l2)"
    by (rule hash_id_concat)
next
  show "hash_id sha256_hex None l = hash_id sha256_hex (Some []) l"
    by (simp add: hash_id_def)
next
  show "hash_id sha256_hex t None = hash_id sha256_hex t (Some [])"
    by (simp add: hash_id_def)
next
  assume "sorts_by_buzz srt \<and> ids_hashed sha256_hex rows \<and> r1 \<in> set rows \<and> r2 \<in> set rows \<and>
    title r1 @ link r1 = title r2 @ link r2"
  then show "id_col r1 = id_col r2"
    by (elim conjE) (rule dedup_same_concatenation)
next
  assume "sorts_by_buzz srt \<and> ids_hashed sha256_hex rows \<and> r1 \<in> set rows \<and> r2 \<in> set rows \<and>
    title r1 @ link r1 = title r2 @ link r2"
  then show "filter (\<lambda>x. id_col x = id_col r1) (dedup_rank srt rows) =
        take 1 (filter (\<lambda>x. id_col x = id_col r1) rows)"
    by (elim conjE) (rule dedup_same_concatenation)
next
  assume "sorts_by_buzz srt \<and> ids_hashed sha256_hex rows \<and> r1 \<in> set rows \<and> r2 \<in> set rows \<and>
    title r1 @ link r1 = title r2 @ link r2"
  then show "length (filter (\<lambda>x. id_col x = id_col r1) (dedup_rank srt rows)) = 1"
    by (elim conjE) (rule dedup_same_concatenation)
qed

theorem hash_id_concatenation_witness:
  "hash_id sample_digest (Some ''ab'') (Some ''c'') = hash_id sample_digest (Some ''a'') (Some ''bc'') \<and>
   (title row_ab_c, link row_ab_c) \<noteq> (title row_a_bc, link row_a_bc) \<and>
   id_col row_ab_c = id_col row_a_bc \<and>
   filter (\<lambda>x. id_col x = id_col row_ab_c) (dedup_rank sort_desc_stable [row_ab_c, row_a_bc]) =
     [row_ab_c]"
proof -
  have h: "ids_hashed sample_digest [row_ab_c, row_a_bc]"
    by (simp add: ids_hashed_def row_ab_c_def row_a_bc_def sample_row_def)
  have e: "title row_ab_c @ link row_ab_c = title row_a_bc @ link row_a_bc"
    by (simp add: row_ab_c_def row_a_bc_def sample_row_def)
  have n: "(title row_ab_c, link row_ab_c) \<noteq> (title row_a_bc, link row_a_bc)"
    by (simp add: row_ab_c_def row_a_bc_def sample_row_def)
  have i: "id_col row_ab_c = id_col row_a_bc"
    by (simp add: row_ab_c_def row_a_bc_def sample_row_def hash_id_def)
  have f: "take 1 (filter (\<lambda>x. id_col x = id_col row_ab_c) [row_ab_c, row_a_bc]) = [row_ab_c]"
    by simp
  have m: "row_ab_c \<in> set [row_ab_c, row_a_bc]" "row_a_bc \<in> set [row_ab_c, row_a_bc]"
    by simp_all
  note th = hash_id_concatenation [of "''ab''" "''c''" "''a''" "''bc''" sample_digest None None
        sort_desc_stable "[row_ab_c, row_a_bc]" row_ab_c row_a_bc]
  from th have a: "hash_id sample_digest (Some ''ab'') (Some ''c'') =
      hash_id sample_digest (Some ''a'') (Some ''bc'')"
    by simp
  have prem: "sorts_by_buzz sort_desc_stable \<and> ids_hashed sample_digest [row_ab_c, row_a_bc] \<and>
      row_ab_c \<in> set [row_ab_c, row_a_bc] \<and> row_a_bc \<in> set [row_ab_c, row_a_bc] \<and>
      title row_ab_c @ link row_ab_c = title row_a_bc @ link row_a_bc"
    using sorts_by_buzz_stable h m e by (intro conjI)
  from th [THEN conjunct2, THEN conjunct2, THEN conjunct2, THEN mp, OF prem]
  have "filter (\<lambda>x. id_col x = id_col row_ab_c) (dedup_rank sort_desc_stable [row_ab_c, row_a_bc]) =
      take 1 (filter (\<lambda>x. id_col x = id_col row_ab_c) [row_ab_c, row_a_bc])"
    by (rule conjunct1 [OF conjunct2])
  then have r: "filter (\<lambda>x. id_col x = id_col row_ab_c)
      (dedup_rank sort_desc_stable [row_ab_c, row_a_bc]) = [row_ab_c]"
    by (simp only: f)
  from a n i r show ?thesis by (intro conjI)
qed

lemma fetch_all_fst:
  "fst (fetch_all parse netloc_of sha256_hex srt feeds max_items clk) =
     (let rows = fst (feeds_loop parse netloc_of sha256_hex max_items feeds [] clk)
      in if rows = [] then [] else dedup_rank srt rows)"
  by (simp add: fetch_all_def Let_def split: prod.splits)

text \<open>A stable sort, which the code does not ask for, keeps rows of equal score in fetch
  order.\<close>

lemma sort_desc_stable_ties:
  "filter (\<lambda>r. buzz_score r = k) (sort_desc_stable rows) = filter (\<lambda>r. buzz_score r = k) rows"
  by (simp add: sort_desc_stable_def rev_filter [symmetric] sort_key_stable)




subsection \<open>The orchestrator\<close>












lemma set_dedup_rank:
  assumes "sorts_by_buzz srt"
  shows "set (dedup_rank srt rows) = set (drop_duplicates rows)"
  using mset_dedup_rank [OF assms, of rows] by (rule mset_eq_setD)




lemma fetch_all_subset:
  assumes "sorts_by_buzz srt"
  shows "set (fst (fetch_all parse netloc_of sha256_hex srt feeds max_items clk)) \<subseteq>
         set (fst (feeds_loop parse netloc_of sha256_hex max_items feeds [] clk))"
  using set_dedup_rank [OF assms] set_drop_duplicates
  by (auto simp: fetch_all_fst Let_def)




lemma fed_netloc: "urlparse_netloc ''https://www.cnbc.com/x'' = Some ''www.cnbc.com''"
  by code_simp













subsection \<open>The trend aggregator\<close>


lemma aggregate_trends_snd:
  "snd (aggregate_trends df within_minutes clk) = (if df = [] then clk else stl clk)"
  by (simp add: aggregate_trends_def tz_now_def Let_def)















lemma split_on_nonempty: "split_on sep s \<noteq> []"
  by (induction s) (auto split: list.splits)

lemma split_on_no_sep: "sep \<notin> set x \<Longrightarrow> split_on sep (x @ sep # rest) = x # split_on sep rest"
  by (induction x) auto

lemma split_on_single: "sep \<notin> set x \<Longrightarrow> split_on sep x = [x]"
  by (induction x) auto

lemma strip_space_Cons: "is_space c \<Longrightarrow> strip (c # s) = strip s"
  by (simp add: strip_def)

lemma strip_clean:
  assumes "clean_name n"
  shows "strip n = n"
proof -
  from assms obtain c cs where n: "n = c # cs" and c: "\<not> is_space c"
    by (cases n) (auto simp: clean_name_def)
  then have a: "dropWhile is_space n = n" by simp
  from assms have "rev n \<noteq> []" and "\<not> is_space (hd (rev n))"
    by (auto simp: clean_name_def hd_rev)
  then have "dropWhile is_space (rev n) = rev n"
    by (cases "rev n") auto
  with a show ?thesis by (simp add: strip_def)
qed

lemma strip_split_space:
  assumes "is_space c" and "c \<noteq> sep"
  shows "map strip (split_on sep (c # s)) = map strip (split_on sep s)"
proof (cases "split_on sep s")
  case Nil
  with split_on_nonempty show ?thesis by blast
next
  case (Cons p ps)
  with assms show ?thesis by (simp add: strip_space_Cons)
qed

lemma space_is_space: "is_space CHR '' ''"
  by (simp add: is_space_def)

lemma split_join_names:
  assumes "\<forall>n \<in> set xs. clean_name n" and "xs \<noteq> []"
  shows "map strip (split_on CHR '','' (join '', '' xs)) = xs"
  using assms
proof (induction "'', ''" xs rule: join.induct)
  case 1
  then show ?case by simp
next
  case (2 x)
  then have "clean_name x" by simp
  then show ?case by (simp add: split_on_single strip_clean clean_name_def)
next
  case (3 x y ys)
  from "3.prems" have cx: "clean_name x" and rest: "\<forall>n \<in> set (y # ys). clean_name n"
    by simp_all
  from cx have nx: "CHR '','' \<notin> set x" by (simp add: clean_name_def)
  have "join '', '' (x # y # ys) = x @ CHR '','' # (CHR '' '' # join '', '' (y # ys))"
    by simp
  then have "map strip (split_on CHR '','' (join '', '' (x # y # ys))) =
      strip x # map strip (split_on CHR '','' (CHR '' '' # join '', '' (y # ys)))"
    by (simp only: split_on_no_sep [OF nx] list.map)
  also have "\<dots> = x # map strip (split_on CHR '','' (join '', '' (y # ys)))"
    using strip_split_space [OF space_is_space, of "CHR '',''" "join '', '' (y # ys)"]
    by (simp add: strip_clean [OF cx])
  also have "\<dots> = x # y # ys"
    using "3.hyps" [OF rest] by simp
  finally show ?case .
qed

lemma row_assets_joined:
  assumes "\<forall>n \<in> set xs. clean_name n"
  shows "filter (\<lambda>a. a \<noteq> [])
    (map strip (split_on CHR '','' (if xs \<noteq> [] then join '', '' xs else []))) = xs"
proof (cases "xs = []")
  case True
  then show ?thesis by (simp add: strip_def)
next
  case False
  from assms have "filter (\<lambda>a. a \<noteq> []) xs = xs"
    by (auto simp: clean_name_def filter_id_conv)
  with False split_join_names [OF assms False] show ?thesis by simp
qed

lemma table_names_clean:
  "\<forall>p \<in> set KEYWORD_TO_ASSETS. \<forall>n \<in> set (snd p). clean_name n"
  by (simp add: KEYWORD_TO_ASSETS_def clean_name_def is_space_def)

lemma index_names_clean: "clean_name ''US100''" "clean_name ''US500''"
  by (simp_all add: clean_name_def is_space_def)

lemma asset_set_clean:
  assumes "n \<in> asset_set tx"
  shows "clean_name n"
proof -
  have "clean_name m" if "m \<in> set (dict_get KEYWORD_TO_ASSETS k [])" for m k
    using that dict_get_cases [of KEYWORD_TO_ASSETS k "[]"] table_names_clean
    by force
  with assms index_names_clean show ?thesis
    by (auto simp: asset_set_def split: if_splits)
qed

lemma detect_assets_clean:
  "distinct (fst (detect_assets_and_impact tx)) \<and>
   (\<forall>n \<in> set (fst (detect_assets_and_impact tx)). clean_name n)"
  using asset_set_clean [of _ tx] by (simp add: detect_assets finite_asset_set)

lemma entry_row_assets:
  assumes "fst (entry_row netloc_of sha256_hex url e clk) = Inr r"
  shows "row_assets r = v_assets (fst (score_entry netloc_of e clk)) \<and>
         distinct (row_assets r)"
proof -
  let ?tx = "attr_or_empty (e_title e) @ '' '' @ attr_or_empty (e_summary e)"
  have v: "v_assets (fst (score_entry netloc_of e clk)) = fst (detect_assets_and_impact ?tx)"
    by (simp add: score_entry_fst)
  from assms have "assets r =
      (if v_assets (fst (score_entry netloc_of e clk)) \<noteq> []
       then join '', '' (v_assets (fst (score_entry netloc_of e clk))) else [])"
    by (auto simp: entry_row_fst Let_def split: sum.splits)
  then have "row_assets r = v_assets (fst (score_entry netloc_of e clk))"
    unfolding row_assets_def v
    using row_assets_joined [of "fst (detect_assets_and_impact ?tx)"] detect_assets_clean [of ?tx]
    by simp
  with v detect_assets_clean [of ?tx] show ?thesis by simp
qed

lemma entries_loop_invariant:
  assumes "\<forall>r \<in> set rows. P r"
    and "\<And>e clk r. fst (entry_row netloc_of sha256_hex url e clk) = Inr r \<Longrightarrow> P r"
  shows "\<forall>r \<in> set (fst (entries_loop netloc_of sha256_hex url es rows clk)). P r"
  using assms(1)
proof (induction es arbitrary: rows clk)
  case Nil
  then show ?case by simp
next
  case (Cons e es)
  obtain res clk' where er: "entry_row netloc_of sha256_hex url e clk = (res, clk')"
    by (cases "entry_row netloc_of sha256_hex url e clk")
  show ?case
  proof (cases res)
    case (Inl ex)
    with er Cons.prems show ?thesis by simp
  next
    case (Inr r)
    with er assms(2) [of e clk r] have "P r" by simp
    with Cons.prems have "\<forall>x \<in> set (rows @ [r]). P x" by simp
    from Cons.IH [OF this, of clk'] er Inr show ?thesis by simp
  qed
qed

lemma feeds_loop_invariant:
  assumes "\<forall>r \<in> set rows. P r"
    and "\<And>url e clk r. fst (entry_row netloc_of sha256_hex url e clk) = Inr r \<Longrightarrow> P r"
  shows "\<forall>r \<in> set (fst (feeds_loop parse netloc_of sha256_hex max_items feeds rows clk)). P r"
  using assms(1)
proof (induction feeds arbitrary: rows clk)
  case Nil
  then show ?case by simp
next
  case (Cons url urls)
  show ?case
  proof (cases "parse url")
    case (Inl ex)
    with Cons show ?thesis by simp
  next
    case (Inr entries)
    obtain rows' clk' where el:
      "entries_loop netloc_of sha256_hex url (slice_to entries max_items) rows clk = (rows', clk')"
      by (cases "entries_loop netloc_of sha256_hex url (slice_to entries max_items) rows clk")
    from entries_loop_invariant [of rows P netloc_of sha256_hex url
        "slice_to entries max_items" clk, OF Cons.prems assms(2)] el
    have "\<forall>r \<in> set rows'. P r" by simp
    from Cons.IH [OF this, of clk'] Inr el show ?thesis by simp
  qed
qed

lemma fetch_all_assets_distinct:
  assumes "sorts_by_buzz srt"
  shows "\<forall>r \<in> set (fst (fetch_all parse netloc_of sha256_hex srt feeds max_items clk)).
           distinct (row_assets r)"
proof -
  have "\<forall>r \<in> set (fst (feeds_loop parse netloc_of sha256_hex max_items feeds [] clk)).
      distinct (row_assets r)"
  proof (rule feeds_loop_invariant)
    show "\<forall>r \<in> set []. distinct (row_assets r)" by simp
  next
    fix url e clk' r
    assume "fst (entry_row netloc_of sha256_hex url e clk') = Inr r"
    from entry_row_assets [OF this] show "distinct (row_assets r)" by (rule conjunct2)
  qed
  with fetch_all_subset [OF assms, of parse netloc_of sha256_hex feeds max_items clk]
  show ?thesis by blast
qed














subsection \<open>The columns stored in a row\<close>

lemma round_half_even_nonneg:
  assumes "0 \<le> x"
  shows "0 \<le> round_half_even x"
proof -
  from assms have "0 \<le> \<lfloor>x\<rfloor>" by simp
  then show ?thesis by (simp add: round_half_even_def Let_def)
qed

lemma round_py_nonneg:
  assumes "0 \<le> x"
  shows "0 \<le> round_py x n"
proof -
  from assms have "0 \<le> x * 10 ^ n" by simp
  from round_half_even_nonneg [OF this] show ?thesis by (simp add: round_py_def)
qed

text \<open>The columns of a row hold rounded copies of the scored values: three decimals for
  impact, source weight and recency, five for the buzz score, which stays non-negative.\<close>

lemma entry_row_columns:
  assumes "fst (entry_row netloc_of sha256_hex url e clk) = Inr r"
  shows "buzz_score r = round_py (v_buzz (fst (score_entry netloc_of e clk))) 5 \<and>
         recency r = round_py (v_rec (fst (score_entry netloc_of e clk))) 3 \<and>
         impact r = round_py (v_impact (fst (score_entry netloc_of e clk))) 3 \<and>
         source_weight r = round_py (v_source_w (fst (score_entry netloc_of e clk))) 3 \<and>
         0 \<le> buzz_score r"
proof -
  from assms have c: "buzz_score r = round_py (v_buzz (fst (score_entry netloc_of e clk))) 5"
    "recency r = round_py (v_rec (fst (score_entry netloc_of e clk))) 3"
    "impact r = round_py (v_impact (fst (score_entry netloc_of e clk))) 3"
    "source_weight r = round_py (v_source_w (fst (score_entry netloc_of e clk))) 3"
    by (auto simp: entry_row_fst Let_def split: sum.splits)
  have "0 < v_buzz (fst (score_entry netloc_of e clk))"
    using buzz_pos [of "v_impact (fst (score_entry netloc_of e clk))"
        "v_source_w (fst (score_entry netloc_of e clk))"
        "v_rec (fst (score_entry netloc_of e clk))"]
      detect_impact_nonneg domain_weight_range [of netloc_of "attr_or_empty (e_link e)"]
      recency_score_range
    by (simp add: score_entry_fst)
  then have "0 \<le> round_py (v_buzz (fst (score_entry netloc_of e clk))) 5"
    by (intro round_py_nonneg) simp
  with c show ?thesis by simp
qed

lemma recency_thirty_hours: "fst (recency_score 0 (sconst 108000000000)) = 1/32"
proof -
  have "exp (5 * ln 2) = (32::real)"
    using exp_of_nat_mult [of 5 "ln (2::real)"] by simp
  then show ?thesis
    by (simp add: recency_score_fst total_seconds_def exp_minus)
qed

lemma cpi_detect: "detect_assets_and_impact ''CPI '' = ([''US500'', ''USD'', ''XAUUSD''], 1)"
  by code_simp

text \<open>An entry thirty hours old: the recency is 1/32 and the buzz score 0.03125; the row
  stores the recency 0.031, and the formula on the stored columns gives 0.031.\<close>

lemma stored_columns_example:
  "\<exists>r. fst (entry_row urlparse_netloc sample_digest [] entry_cpi (sconst 108000000000)) = Inr r \<and>
       recency r = 31/1000 \<and> impact r = 1 \<and> source_weight r = 1 \<and> buzz_score r = 1/32 \<and>
       recency r * (6/10 + 3/10 * impact r + 1/10 * source_weight r) \<noteq> buzz_score r"
proof -
  have s: "fst (score_entry urlparse_netloc entry_cpi (sconst 108000000000)) =
     \<lparr> v_title = ''CPI'', v_summary = [], v_link = ''https://www.cnbc.com/x'', v_dt = 0,
       v_assets = [''US500'', ''USD'', ''XAUUSD''],
       v_impact = 1, v_source_w = 1, v_rec = 1/32, v_buzz = 1/32 \<rparr>"
    by (simp add: score_entry_fst entry_cpi_def attr_or_empty_def to_dt_fst to_dt_snd
        cpi_detect cnbc_weight recency_thirty_hours buzz_def)
  have r: "round_py (1/32) 3 = 31/1000" "round_py (1/32) 5 = 1/32" "round_py 1 3 = 1"
    by (simp_all add: round_py_def round_half_even_def)
  show ?thesis
    by (simp add: entry_row_fst s fed_netloc r Let_def)
qed

end
